theory Spec2Isabelle
  imports Complex_Main "HOL-Library.FSet" "HOL-Library.AList" "HOL-Library.Char_ord"
    "HOL-Library.List_Lexorder"
begin

section \<open>Data model\<close>

text \<open>
  An item is a Python \<open>str\<close>. A transaction (\<open>set\<close> of items) and an itemset
  (\<open>frozenset\<close> of items) are finite sets compared by value: \<open>item fset\<close>.
  Where the source iterates over the items of such a set, the model enumerates them in
  sorted order (\<open>sorted_list_of_fset\<close>); Python leaves that order unspecified, and no
  statement below depends on it.

  A Python \<open>set\<close> of itemsets (\<open>itemsets\<close>, \<open>candidates\<close>, \<open>maximal\<close>) is the list of its
  elements in iteration order; \<open>set_add\<close> keeps it free of duplicates. A \<open>dict\<close> keyed by
  itemsets is an association list in insertion order, updated with \<open>AList.update\<close>
  (an existing key keeps its position, a new key goes to the end, as in Python).

  Python \<open>float\<close> values (\<open>min_sup\<close>, \<open>min_conf\<close>, confidence, rule support) are
  idealised as \<open>real\<close>: products and quotients are exact, IEEE rounding is not modelled.
\<close>

type_synonym item = string
type_synonym itemset = "item fset"
type_synonym 'v dict = "(itemset \<times> 'v) list"

datatype py_error = ZeroDivisionError | ValueError | FileNotFoundError

definition set_add :: "'a \<Rightarrow> 'a list \<Rightarrow> 'a list" where
  "set_add x xs = (if x \<in> set xs then xs else xs @ [x])"

definition dict_keys :: "'v dict \<Rightarrow> itemset list" where
  "dict_keys d = map fst d"

definition dict_contains :: "'v dict \<Rightarrow> itemset \<Rightarrow> bool" where
  "dict_contains d key = (key \<in> set (dict_keys d))"

text \<open>\<open>d.get(key, default)\<close>.\<close>

definition dict_get :: "'v dict \<Rightarrow> itemset \<Rightarrow> 'v \<Rightarrow> 'v" where
  "dict_get d key dflt = (case map_of d key of None \<Rightarrow> dflt | Some v \<Rightarrow> v)"

text \<open>
  \<open>d[key]\<close> on a \<open>defaultdict(int)\<close>: a missing key reads as 0 and is inserted with
  that value; the pair is the value read and the dictionary afterwards.
\<close>

definition defaultdict_getitem :: "nat dict \<Rightarrow> itemset \<Rightarrow> nat \<times> nat dict" where
  "defaultdict_getitem d key =
     (case map_of d key of None \<Rightarrow> (0, d @ [(key, 0)]) | Some v \<Rightarrow> (v, d))"

text \<open>\<open>d.update(other)\<close>: the items of \<open>other\<close> are stored in their order.\<close>

definition dict_update :: "'v dict \<Rightarrow> 'v dict \<Rightarrow> 'v dict" where
  "dict_update d other = fold (\<lambda>(key, v) d. AList.update key v d) other d"

text \<open>
  \<open>itertools.combinations(xs, r)\<close>: the subsequences of length \<open>r\<close>, in the order the
  library yields them.
\<close>

fun combinations :: "'a list \<Rightarrow> nat \<Rightarrow> 'a list list" where
  "combinations xs 0 = [[]]"
| "combinations [] (Suc r) = []"
| "combinations (x # xs) (Suc r) = map ((#) x) (combinations xs r) @ combinations xs (Suc r)"

section \<open>Support counting and the frequency filter (main.py)\<close>

definition get_itemsets :: "itemset list \<Rightarrow> nat \<Rightarrow> itemset list" where
  "get_itemsets transactions k =
     fold (\<lambda>transaction itemsets.
             fold (\<lambda>combo itemsets. set_add (fset_of_list combo) itemsets)
               (combinations (sorted_list_of_fset transaction) k) itemsets)
       transactions []"

text \<open>
  \<open>support_counts[itemset] += 1\<close> on the \<open>defaultdict(int)\<close>: the key is created by
  the first increment, and by nothing else.
\<close>

definition count_step :: "itemset \<Rightarrow> itemset \<Rightarrow> nat dict \<Rightarrow> nat dict" where
  "count_step transaction itemset support_counts =
     (if itemset |\<subseteq>| transaction
      then AList.update itemset (dict_get support_counts itemset 0 + 1) support_counts
      else support_counts)"

definition count_support :: "itemset list \<Rightarrow> itemset list \<Rightarrow> nat dict" where
  "count_support transactions itemsets =
     fold (\<lambda>transaction support_counts.
             fold (count_step transaction) itemsets support_counts)
       transactions []"

definition filter_frequent_itemsets :: "nat dict \<Rightarrow> real \<Rightarrow> nat \<Rightarrow> nat dict" where
  "filter_frequent_itemsets support_counts min_sup total_transactions =
     (let min_support_count = min_sup * real total_transactions
      in filter (\<lambda>(itemset, count). real count \<ge> min_support_count) support_counts)"

text \<open>The number of transactions that contain an itemset.\<close>

definition support_of :: "itemset list \<Rightarrow> itemset \<Rightarrow> nat" where
  "support_of transactions itemset = length (filter (\<lambda>t. itemset |\<subseteq>| t) transactions)"

section \<open>Candidate generation and maximal itemsets (main.py)\<close>

text \<open>
  The two nested \<open>range\<close> loops of \<open>generate_candidates\<close>: \<open>itemset1\<close> is the head
  of the remaining key list and \<open>itemset2\<close> runs over the keys after it.
\<close>

definition join_step :: "nat \<Rightarrow> itemset \<Rightarrow> itemset \<Rightarrow> itemset list \<Rightarrow> itemset list" where
  "join_step k itemset1 itemset2 candidates =
     (let union = itemset1 |\<union>| itemset2
      in if fcard union = k then set_add union candidates else candidates)"

fun join_pairs :: "nat \<Rightarrow> itemset list \<Rightarrow> itemset list \<Rightarrow> itemset list" where
  "join_pairs k [] candidates = candidates"
| "join_pairs k (itemset1 # freq_list) candidates =
     join_pairs k freq_list (fold (join_step k itemset1) freq_list candidates)"

text \<open>
  The pruning loop over \<open>combinations(candidate, k - 1)\<close>; \<open>k - 1\<close> is the truncated
  difference, and \<open>k = 0\<close> (where Python's \<open>combinations\<close> would raise) admits no
  candidate, since two distinct keys cannot both be empty.
\<close>

definition all_subsets_frequent :: "'v dict \<Rightarrow> nat \<Rightarrow> itemset \<Rightarrow> bool" where
  "all_subsets_frequent frequent_itemsets k candidate =
     list_all (\<lambda>subset. dict_contains frequent_itemsets (fset_of_list subset))
       (combinations (sorted_list_of_fset candidate) (k - 1))"

definition generate_candidates :: "'v dict \<Rightarrow> nat \<Rightarrow> itemset list" where
  "generate_candidates frequent_itemsets k =
     (let freq_list = dict_keys frequent_itemsets;
          candidates = join_pairs k freq_list []
      in fold (\<lambda>candidate final_candidates.
                 if all_subsets_frequent frequent_itemsets k candidate
                 then set_add candidate final_candidates else final_candidates)
           candidates [])"

text \<open>
  \<open>sorted(keys, key=len, reverse=True)\<close> is a stable sort by decreasing size:
  \<open>sort_key\<close> is stable, and the key is negated.
\<close>

definition maximal_step :: "itemset \<Rightarrow> itemset list \<Rightarrow> itemset list" where
  "maximal_step itemset maximal =
     (if list_ex (\<lambda>other. itemset |\<subseteq>| other) maximal then maximal
      else set_add itemset maximal)"

definition find_maximal_frequent_itemsets :: "'v dict \<Rightarrow> itemset list" where
  "find_maximal_frequent_itemsets frequent_itemsets =
     (let sorted_itemsets =
            sort_key (\<lambda>itemset. - int (fcard itemset)) (dict_keys frequent_itemsets)
      in fold maximal_step sorted_itemsets [])"

section \<open>The level-wise search (main.py, apriori)\<close>

text \<open>
  The state of the \<open>while\<close> loop is \<open>(k, frequent_itemsets, all_frequent_itemsets,
  all_support_counts)\<close>. The loop goes on while \<open>frequent_itemsets\<close> is non-empty and
  the candidates generated from it are non-empty (the \<open>break\<close>).
\<close>

type_synonym loop_state = "nat \<times> nat dict \<times> nat dict \<times> nat dict"

definition loop_continues :: "loop_state \<Rightarrow> bool" where
  "loop_continues s =
     (case s of (k, frequent_itemsets, all_frequent_itemsets, all_support_counts) \<Rightarrow>
        frequent_itemsets \<noteq> [] \<and> generate_candidates frequent_itemsets k \<noteq> [])"

definition loop_body :: "itemset list \<Rightarrow> real \<Rightarrow> nat \<Rightarrow> loop_state \<Rightarrow> loop_state" where
  "loop_body transactions min_sup total_transactions s =
     (case s of (k, frequent_itemsets, all_frequent_itemsets, all_support_counts) \<Rightarrow>
        let candidates = generate_candidates frequent_itemsets k;
            support_counts = count_support transactions candidates;
            frequent_itemsets' =
              filter_frequent_itemsets support_counts min_sup total_transactions
        in (k + 1, frequent_itemsets',
            dict_update all_frequent_itemsets frequent_itemsets',
            dict_update all_support_counts support_counts))"

text \<open>The largest transaction size; the termination measure of the loop uses it.\<close>

definition max_size :: "itemset list \<Rightarrow> nat" where
  "max_size transactions = fold (\<lambda>t m. max (fcard t) m) transactions 0"

definition loop_measure :: "itemset list \<Rightarrow> loop_state \<Rightarrow> nat" where
  "loop_measure transactions s =
     (case s of (k, frequent_itemsets, all_frequent_itemsets, all_support_counts) \<Rightarrow>
        2 * (Suc (max_size transactions) - k) + (if frequent_itemsets = [] then 0 else 1))"

section \<open>Facts about the containers and candidate generation\<close>

lemma set_set_add [simp]: "set (set_add x xs) = insert x (set xs)"
  by (auto simp: set_add_def)

lemma distinct_set_add [simp]: "distinct (set_add x xs) = distinct xs"
  by (auto simp: set_add_def)

lemma set_fold_join_step:
  "set (fold (join_step k a) bs cands) =
     set cands \<union> {a |\<union>| b | b. b \<in> set bs \<and> fcard (a |\<union>| b) = k}"
  by (induction bs arbitrary: cands) (auto simp: join_step_def Let_def)

lemma distinct_fold_join_step:
  "distinct (fold (join_step k a) bs cands) = distinct cands"
  by (induction bs arbitrary: cands) (auto simp: join_step_def Let_def)

lemma pairs_Cons:
  fixes x :: "'a fset"
  assumes "x \<notin> set xs"
  shows "{a |\<union>| b | a b. a \<in> set (x # xs) \<and> b \<in> set (x # xs) \<and> a \<noteq> b \<and> fcard (a |\<union>| b) = k}
       = {x |\<union>| b | b. b \<in> set xs \<and> fcard (x |\<union>| b) = k}
         \<union> {a |\<union>| b | a b. a \<in> set xs \<and> b \<in> set xs \<and> a \<noteq> b \<and> fcard (a |\<union>| b) = k}"
    (is "?L = ?M \<union> ?R")
proof (intro set_eqI iffI)
  fix c assume "c \<in> ?L"
  then obtain a b where ab: "c = a |\<union>| b" "a \<in> set (x # xs)" "b \<in> set (x # xs)"
    "a \<noteq> b" "fcard (a |\<union>| b) = k" by blast
  show "c \<in> ?M \<union> ?R"
  proof (cases "a = x")
    case True
    with ab have "b \<in> set xs" by auto
    with ab True show ?thesis by blast
  next
    case False
    note ax = this
    show ?thesis
    proof (cases "b = x")
      case True
      with ab ax have "a \<in> set xs" by auto
      moreover have "c = x |\<union>| a" using ab True by (simp add: sup_commute)
      moreover have "fcard (x |\<union>| a) = k" using ab True by (simp add: sup_commute)
      ultimately show ?thesis by blast
    next
      case False
      with ab ax have "a \<in> set xs" "b \<in> set xs" by auto
      with ab show ?thesis by blast
    qed
  qed
next
  fix c assume "c \<in> ?M \<union> ?R"
  then show "c \<in> ?L"
  proof
    assume "c \<in> ?M"
    then obtain b where b: "c = x |\<union>| b" "b \<in> set xs" "fcard (x |\<union>| b) = k" by blast
    with assms have "x \<noteq> b" by auto
    with b show ?thesis by auto
  next
    assume "c \<in> ?R"
    then show ?thesis by auto
  qed
qed

lemma set_join_pairs:
  "distinct xs \<Longrightarrow> set (join_pairs k xs cands) =
     set cands \<union> {a |\<union>| b | a b. a \<in> set xs \<and> b \<in> set xs \<and> a \<noteq> b \<and> fcard (a |\<union>| b) = k}"
proof (induction xs arbitrary: cands)
  case Nil
  then show ?case by simp
next
  case (Cons x xs)
  from Cons.prems have x: "x \<notin> set xs" and d: "distinct xs" by simp_all
  have "set (join_pairs k (x # xs) cands) =
      set (join_pairs k xs (fold (join_step k x) xs cands))" by simp
  also have "\<dots> = set (fold (join_step k x) xs cands) \<union>
      {a |\<union>| b | a b. a \<in> set xs \<and> b \<in> set xs \<and> a \<noteq> b \<and> fcard (a |\<union>| b) = k}"
    by (rule Cons.IH [OF d])
  also have "\<dots> = set cands \<union> ({x |\<union>| b | b. b \<in> set xs \<and> fcard (x |\<union>| b) = k} \<union>
      {a |\<union>| b | a b. a \<in> set xs \<and> b \<in> set xs \<and> a \<noteq> b \<and> fcard (a |\<union>| b) = k})"
    by (simp only: set_fold_join_step Un_assoc)
  also have "\<dots> = set cands \<union>
      {a |\<union>| b | a b. a \<in> set (x # xs) \<and> b \<in> set (x # xs) \<and> a \<noteq> b \<and> fcard (a |\<union>| b) = k}"
    by (simp only: pairs_Cons [OF x])
  finally show ?case .
qed

lemma join_pairs_card:
  "c \<in> set (join_pairs k xs cands) \<Longrightarrow> c \<in> set cands \<or> fcard c = k"
proof (induction xs arbitrary: cands)
  case Nil
  then show ?case by simp
next
  case (Cons x xs)
  from Cons.prems have "c \<in> set (join_pairs k xs (fold (join_step k x) xs cands))" by simp
  from Cons.IH [OF this] show ?case by (auto simp: set_fold_join_step)
qed

lemma distinct_join_pairs: "distinct (join_pairs k xs cands) = distinct cands"
  by (induction xs arbitrary: cands) (auto simp: distinct_fold_join_step)

lemma set_fold_prune:
  "set (fold (\<lambda>c fc. if P c then set_add c fc else fc) cs acc) = set acc \<union> {c \<in> set cs. P c}"
  by (induction cs arbitrary: acc) auto

lemma distinct_fold_prune:
  "distinct (fold (\<lambda>c fc. if P c then set_add c fc else fc) cs acc) = distinct acc"
  by (induction cs arbitrary: acc) auto

lemma set_generate_candidates:
  "set (generate_candidates d k) =
     {c \<in> set (join_pairs k (dict_keys d) []). all_subsets_frequent d k c}"
  by (simp add: generate_candidates_def Let_def set_fold_prune)

lemma distinct_generate_candidates: "distinct (generate_candidates d k)"
  by (simp add: generate_candidates_def Let_def distinct_fold_prune)

lemma generate_candidates_card: "c \<in> set (generate_candidates d k) \<Longrightarrow> fcard c = k"
  using join_pairs_card [of c k "dict_keys d" "[]"] by (simp add: set_generate_candidates)

section \<open>Facts about support counting and the loop measure\<close>

lemma map_of_count_inner:
  "distinct cs \<Longrightarrow> map_of (fold (count_step t) cs d) c =
     (if c \<in> set cs \<and> c |\<subseteq>| t then Some (dict_get d c 0 + 1) else map_of d c)"
proof (induction cs arbitrary: d)
  case Nil then show ?case by simp
next
  case (Cons a cs)
  then show ?case
    by (auto simp: count_step_def update_conv' dict_get_def)
qed

lemma keys_count_step:
  "fst ` set (count_step t c d) = fst ` set d \<union> (if c |\<subseteq>| t then {c} else {})"
  by (simp add: count_step_def dom_update Un_commute)

lemma keys_count_inner:
  "fst ` set (fold (count_step t) cs d) = fst ` set d \<union> {c \<in> set cs. c |\<subseteq>| t}"
  by (induction cs arbitrary: d) (auto simp: keys_count_step)

lemma distinct_count_step:
  "distinct (map fst d) \<Longrightarrow> distinct (map fst (count_step t c d))"
  by (simp add: count_step_def distinct_update)

lemma distinct_count_inner:
  "distinct (map fst d) \<Longrightarrow> distinct (map fst (fold (count_step t) cs d))"
  by (induction cs arbitrary: d) (auto simp: distinct_count_step)

lemma keys_count_outer:
  "fst ` set (fold (\<lambda>t d. fold (count_step t) cs d) ts d) =
     fst ` set d \<union> {c \<in> set cs. \<exists>t \<in> set ts. c |\<subseteq>| t}"
  by (induction ts arbitrary: d) (auto simp: keys_count_inner)

lemma distinct_count_outer:
  "distinct (map fst d) \<Longrightarrow>
     distinct (map fst (fold (\<lambda>t d. fold (count_step t) cs d) ts d))"
  by (induction ts arbitrary: d) (auto simp: distinct_count_inner)

lemma get_count_inner:
  "distinct cs \<Longrightarrow> dict_get (fold (count_step t) cs d) c 0 =
     dict_get d c 0 + (if c \<in> set cs \<and> c |\<subseteq>| t then 1 else 0)"
  by (simp add: dict_get_def map_of_count_inner)

lemma get_count_outer:
  "distinct cs \<Longrightarrow> dict_get (fold (\<lambda>t d. fold (count_step t) cs d) ts d) c 0 =
     dict_get d c 0 + (if c \<in> set cs then support_of ts c else 0)"
  by (induction ts arbitrary: d) (auto simp: get_count_inner support_of_def)

lemma keys_count_support:
  "fst ` set (count_support ts cs) = {c \<in> set cs. \<exists>t \<in> set ts. c |\<subseteq>| t}"
  by (simp add: count_support_def keys_count_outer)

lemma distinct_count_support: "distinct (map fst (count_support ts cs))"
  by (simp add: count_support_def distinct_count_outer)

lemma get_count_support:
  "distinct cs \<Longrightarrow> dict_get (count_support ts cs) c 0 =
     (if c \<in> set cs then support_of ts c else 0)"
  using get_count_outer [of cs ts "[]" c] by (simp add: count_support_def dict_get_def)

lemma support_of_pos: "0 < support_of ts c \<longleftrightarrow> (\<exists>t \<in> set ts. c |\<subseteq>| t)"
  by (auto simp: support_of_def filter_empty_conv)

lemma map_of_count_support:
  "distinct cs \<Longrightarrow> map_of (count_support ts cs) c =
     (if c \<in> set cs \<and> 0 < support_of ts c then Some (support_of ts c) else None)"
proof -
  assume d: "distinct cs"
  show ?thesis
  proof (cases "c \<in> fst ` set (count_support ts cs)")
    case True
    then obtain v where v: "map_of (count_support ts cs) c = Some v"
      by (metis domD dom_map_of_conv_image_fst)
    with get_count_support [OF d, of ts c] True show ?thesis
      by (auto simp: dict_get_def keys_count_support support_of_pos)
  next
    case False
    then have "map_of (count_support ts cs) c = None"
      by (metis domIff dom_map_of_conv_image_fst)
    with False show ?thesis
      by (auto simp: keys_count_support support_of_pos)
  qed
qed

lemma max_size_fold: "fold (\<lambda>t m. max (fcard t) m) ts m0 \<ge> m0 \<and> (\<forall>t \<in> set ts. fcard t \<le> fold (\<lambda>t m. max (fcard t) m) ts m0)"
proof (induction ts arbitrary: m0)
  case Nil then show ?case by simp
next
  case (Cons a ts)
  from Cons [of "max (fcard a) m0"] show ?case by auto
qed

lemma fcard_le_max_size: "t \<in> set ts \<Longrightarrow> c |\<subseteq>| t \<Longrightarrow> fcard c \<le> max_size ts"
  using max_size_fold [of 0 ts] fcard_mono [of c t] by (fastforce simp: max_size_def)

lemma keys_filter_frequent:
  "set (filter_frequent_itemsets sc ms n) \<subseteq> set sc"
  by (auto simp: filter_frequent_itemsets_def)

lemma loop_body_measure:
  assumes "loop_continues s"
  shows "loop_measure ts (loop_body ts ms n s) < loop_measure ts s"
proof -
  obtain k f af asc where s: "s = (k, f, af, asc)" by (cases s) auto
  from assms s have fne: "f \<noteq> []" by (simp add: loop_continues_def)
  define f' where "f' = filter_frequent_itemsets (count_support ts (generate_candidates f k)) ms n"
  have body: "loop_body ts ms n s = (k + 1, f', dict_update af f', dict_update asc (count_support ts (generate_candidates f k)))"
    by (simp add: s loop_body_def Let_def f'_def)
  have big: "f' = []" if "max_size ts < k"
  proof (rule ccontr)
    assume "f' \<noteq> []"
    then obtain c v where "(c, v) \<in> set f'" by (cases f') auto
    then have "(c, v) \<in> set (count_support ts (generate_candidates f k))"
      using keys_filter_frequent f'_def by blast
    then have "c \<in> fst ` set (count_support ts (generate_candidates f k))" by force
    then obtain t where "c \<in> set (generate_candidates f k)" "t \<in> set ts" "c |\<subseteq>| t"
      by (auto simp: keys_count_support)
    then have "k \<le> max_size ts"
      using generate_candidates_card fcard_le_max_size by metis
    with that show False by simp
  qed
  show ?thesis
  proof (cases "max_size ts < k")
    case True
    with big fne show ?thesis unfolding body unfolding s loop_measure_def by simp
  next
    case False
    then have "Suc (max_size ts) - k = Suc (max_size ts - k)" by arith
    with fne show ?thesis unfolding body unfolding s loop_measure_def by simp
  qed
qed

section \<open>The loop and \<open>apriori\<close>\<close>

text \<open>
  The \<open>while\<close> loop of \<open>apriori\<close>, from a state to the state at its exit. Its
  termination rests on \<open>loop_body_measure\<close>: every candidate of level \<open>k\<close> has
  exactly \<open>k\<close> items and enters \<open>frequent_itemsets\<close> only when some transaction contains
  it.
\<close>

function apriori_loop :: "itemset list \<Rightarrow> real \<Rightarrow> nat \<Rightarrow> loop_state \<Rightarrow> loop_state" where
  "apriori_loop transactions min_sup total_transactions s =
     (if loop_continues s
      then apriori_loop transactions min_sup total_transactions
             (loop_body transactions min_sup total_transactions s)
      else s)"
  by pat_completeness auto
termination
  by (relation "measure (\<lambda>(transactions, min_sup, total_transactions, s). loop_measure transactions s)")
    (auto simp: loop_body_measure)

declare apriori_loop.simps [simp del]

text \<open>
  Step 1 of \<open>apriori\<close> (the frequent 1-itemsets) ends in the state in which the loop is
  entered, after \<open>k += 1\<close>.
\<close>

definition initial_state :: "itemset list \<Rightarrow> real \<Rightarrow> loop_state" where
  "initial_state transactions min_sup =
     (let total_transactions = length transactions;
          k = 1;
          candidate_itemsets = get_itemsets transactions k;
          support_counts = count_support transactions candidate_itemsets;
          frequent_itemsets =
            filter_frequent_itemsets support_counts min_sup total_transactions;
          all_frequent_itemsets = frequent_itemsets;
          all_support_counts = support_counts
      in (k + 1, frequent_itemsets, all_frequent_itemsets, all_support_counts))"

definition apriori :: "itemset list \<Rightarrow> real \<Rightarrow> nat dict \<times> nat dict \<times> itemset list \<times> nat" where
  "apriori transactions min_sup =
     (let total_transactions = length transactions
      in case apriori_loop transactions min_sup total_transactions
                (initial_state transactions min_sup) of
           (k, frequent_itemsets, all_frequent_itemsets, all_support_counts) \<Rightarrow>
             (all_frequent_itemsets, all_support_counts,
              find_maximal_frequent_itemsets all_frequent_itemsets, total_transactions))"

section \<open>Rule generation (main.py, generate_rules)\<close>

text \<open>\<open>s.startswith(p)\<close> and \<open>sub in s\<close> on strings.\<close>

definition startswith :: "string \<Rightarrow> string \<Rightarrow> bool" where
  "startswith s p = (take (length p) s = p)"

fun str_contains :: "string \<Rightarrow> string \<Rightarrow> bool" where
  "str_contains sub [] = (sub = [])"
| "str_contains sub (c # s) = (startswith (c # s) sub \<or> str_contains sub s)"

text \<open>The two composite items that \<open>load_transactions\<close> builds for a record.\<close>

definition violation_item :: "string \<Rightarrow> string \<Rightarrow> item" where
  "violation_item violation_code violation_desc =
     ''Violation_'' @ violation_code @ ''_'' @ violation_desc"

definition hierarchical_item :: "string \<Rightarrow> item \<Rightarrow> item" where
  "hierarchical_item fine_level violation = fine_level @ ''_'' @ violation"

definition fine_levels :: "item list" where
  "fine_levels = [''Low Fine'', ''Medium Fine'', ''High Fine'']"

text \<open>A rule is the tuple \<open>(lhs, rhs, rule_support, confidence)\<close>.\<close>

type_synonym rule = "itemset \<times> itemset \<times> real \<times> real"

text \<open>The first \<open>continue\<close> of the inner loop: the test on the kind of \<open>rhs_item\<close>.\<close>

definition rhs_skipped :: "item \<Rightarrow> bool" where
  "rhs_skipped rhs_item = (str_contains ''_'' rhs_item \<and> str_contains ''Violation_'' rhs_item)"

definition is_trivial :: "item \<Rightarrow> itemset \<Rightarrow> bool" where
  "is_trivial rhs_item lhs =
     list_ex (\<lambda>lhs_item. startswith lhs_item (rhs_item @ ''_Violation_''))
       (sorted_list_of_fset lhs)"

text \<open>
  The body of the inner loop for one \<open>rhs_item\<close>: \<open>Inr None\<close> on a \<open>continue\<close> or a
  confidence below \<open>min_conf\<close>, \<open>Inr (Some rule)\<close> on \<open>rules.append\<close>, and
  \<open>Inl ZeroDivisionError\<close> when \<open>support / total_transactions\<close> divides by zero.
\<close>

definition rule_for_item ::
  "nat dict \<Rightarrow> real \<Rightarrow> nat \<Rightarrow> itemset \<Rightarrow> nat \<Rightarrow> item \<Rightarrow> py_error + rule option" where
  "rule_for_item support_counts min_conf total_transactions itemset support rhs_item =
     (if rhs_skipped rhs_item then Inr None
      else let rhs = {|rhs_item|}; lhs = itemset |-| rhs in
        if lhs = {||} then Inr None
        else if rhs_item \<in> set fine_levels \<and> is_trivial rhs_item lhs then Inr None
        else let lhs_support = dict_get support_counts lhs 0 in
          if lhs_support = 0 then Inr None
          else let confidence = real support / real lhs_support in
            if confidence \<ge> min_conf
            then (if total_transactions = 0 then Inl ZeroDivisionError
                  else let rule_support = real support / real total_transactions
                       in Inr (Some (lhs, rhs, rule_support, confidence)))
            else Inr None)"

fun rules_of_itemset ::
  "nat dict \<Rightarrow> real \<Rightarrow> nat \<Rightarrow> itemset \<Rightarrow> nat \<Rightarrow> item list \<Rightarrow> rule list \<Rightarrow> py_error + rule list"
  where
  "rules_of_itemset support_counts min_conf total_transactions itemset support [] rules =
     Inr rules"
| "rules_of_itemset support_counts min_conf total_transactions itemset support
     (rhs_item # items) rules =
     (case rule_for_item support_counts min_conf total_transactions itemset support rhs_item of
        Inl e \<Rightarrow> Inl e
      | Inr None \<Rightarrow>
          rules_of_itemset support_counts min_conf total_transactions itemset support items
            rules
      | Inr (Some rule) \<Rightarrow>
          rules_of_itemset support_counts min_conf total_transactions itemset support items
            (rules @ [rule]))"

text \<open>
  The outer loop. \<open>support_counts\<close> is the \<open>defaultdict\<close> that \<open>apriori\<close> returns, so
  \<open>support_counts[itemset]\<close> never raises and may insert the key.
\<close>

fun generate_rules_loop ::
  "itemset list \<Rightarrow> nat dict \<Rightarrow> real \<Rightarrow> nat \<Rightarrow> rule list \<Rightarrow> py_error + rule list" where
  "generate_rules_loop [] support_counts min_conf total_transactions rules = Inr rules"
| "generate_rules_loop (itemset # maximal_frequent) support_counts min_conf
     total_transactions rules =
     (case defaultdict_getitem support_counts itemset of
        (support, support_counts') \<Rightarrow>
          if fcard itemset < 2
          then generate_rules_loop maximal_frequent support_counts' min_conf
                 total_transactions rules
          else (case rules_of_itemset support_counts' min_conf total_transactions itemset
                       support (sorted_list_of_fset itemset) rules of
                  Inl e \<Rightarrow> Inl e
                | Inr rules' \<Rightarrow>
                    generate_rules_loop maximal_frequent support_counts' min_conf
                      total_transactions rules'))"

definition generate_rules ::
  "itemset list \<Rightarrow> nat dict \<Rightarrow> real \<Rightarrow> nat \<Rightarrow> py_error + rule list" where
  "generate_rules maximal_frequent support_counts min_conf total_transactions =
     generate_rules_loop maximal_frequent support_counts min_conf total_transactions []"

text \<open>Lines 211 and 212 of \<open>main\<close>: mining followed by rule generation.\<close>

definition mine_rules :: "itemset list \<Rightarrow> real \<Rightarrow> real \<Rightarrow> py_error + rule list" where
  "mine_rules transactions min_sup min_conf =
     (case apriori transactions min_sup of
        (frequent_itemsets, support_counts, maximal_frequent, total_transactions) \<Rightarrow>
          generate_rules maximal_frequent support_counts min_conf total_transactions)"

section \<open>The frequency filter and the support counter\<close>







section \<open>Candidate generation\<close>

lemma combinations_props:
  "distinct xs \<Longrightarrow> ys \<in> set (combinations xs r) \<Longrightarrow>
     distinct ys \<and> length ys = r \<and> set ys \<subseteq> set xs"
proof (induction xs r arbitrary: ys rule: combinations.induct)
  case (1 xs) then show ?case by simp
next
  case (2 r) then show ?case by simp
next
  case (3 x xs r)
  from "3.prems" have x: "x \<notin> set xs" and d: "distinct xs" by simp_all
  from "3.prems" consider zs where "ys = x # zs" "zs \<in> set (combinations xs r)"
    | "ys \<in> set (combinations xs (Suc r))" by auto
  then show ?case
  proof cases
    case 1
    with "3.IH"(1) [OF d 1(2)] x show ?thesis by auto
  next
    case 2
    with "3.IH"(2) [OF d 2] show ?thesis by auto
  qed
qed

lemma combinations_complete:
  "distinct xs \<Longrightarrow> s \<subseteq> set xs \<Longrightarrow> card s = r \<Longrightarrow>
     \<exists>ys \<in> set (combinations xs r). set ys = s"
proof (induction xs r arbitrary: s rule: combinations.induct)
  case (1 xs)
  then have "finite s" by (meson finite_set finite_subset)
  with 1 show ?case by simp
next
  case (2 r) then show ?case by simp
next
  case (3 x xs r)
  from "3.prems" have x: "x \<notin> set xs" and d: "distinct xs" by simp_all
  have fin: "finite s" using "3.prems"(2) by (meson finite_set finite_subset)
  show ?case
  proof (cases "x \<in> s")
    case True
    have "s - {x} \<subseteq> set xs" using "3.prems"(2) by auto
    moreover have "card (s - {x}) = r" using True fin "3.prems"(3) by simp
    ultimately obtain zs where zs: "zs \<in> set (combinations xs r)" "set zs = s - {x}"
      using "3.IH"(1) [OF d] by blast
    then have "x # zs \<in> set (combinations (x # xs) (Suc r))" by simp
    moreover have "set (x # zs) = s" using zs True by auto
    ultimately show ?thesis by blast
  next
    case False
    then have "s \<subseteq> set xs" using "3.prems"(2) by auto
    then obtain zs where "zs \<in> set (combinations xs (Suc r))" "set zs = s"
      using "3.IH"(2) [OF d _ "3.prems"(3)] by blast
    then show ?thesis by auto
  qed
qed

lemma distinct_sorted_list_of_fset: "distinct (sorted_list_of_fset S)"
  by (simp add: sorted_list_of_fset.rep_eq)

lemma fset_combinations:
  "(\<exists>ys \<in> set (combinations (sorted_list_of_fset c) r). fset_of_list ys = s)
     \<longleftrightarrow> s |\<subseteq>| c \<and> fcard s = r"
proof
  assume "\<exists>ys \<in> set (combinations (sorted_list_of_fset c) r). fset_of_list ys = s"
  then obtain ys where ys: "ys \<in> set (combinations (sorted_list_of_fset c) r)"
    "fset_of_list ys = s" by blast
  from combinations_props [OF distinct_sorted_list_of_fset ys(1)]
  have p: "distinct ys" "length ys = r" "set ys \<subseteq> fset c" by simp_all
  from ys(2) have fs: "fset s = set ys" by (auto simp: fset_of_list.rep_eq)
  have "s |\<subseteq>| c" using p(3) fs by (simp add: less_eq_fset.rep_eq)
  moreover have "fcard s = r" using p(1,2) fs by (simp add: fcard.rep_eq distinct_card)
  ultimately show "s |\<subseteq>| c \<and> fcard s = r" by simp
next
  assume a: "s |\<subseteq>| c \<and> fcard s = r"
  then have "fset s \<subseteq> set (sorted_list_of_fset c)" "card (fset s) = r"
    by (simp_all add: less_eq_fset.rep_eq fcard.rep_eq)
  from combinations_complete [OF distinct_sorted_list_of_fset this]
  obtain ys where ys: "ys \<in> set (combinations (sorted_list_of_fset c) r)" "set ys = fset s"
    by blast
  then have "fset_of_list ys = s" by (simp add: fset_inject [symmetric] fset_of_list.rep_eq)
  with ys show "\<exists>ys \<in> set (combinations (sorted_list_of_fset c) r). fset_of_list ys = s"
    by blast
qed

lemma all_subsets_frequent_iff:
  "all_subsets_frequent d k c \<longleftrightarrow>
     (\<forall>s. s |\<subseteq>| c \<and> fcard s = k - 1 \<longrightarrow> dict_contains d s)"
proof -
  have "all_subsets_frequent d k c \<longleftrightarrow>
      (\<forall>ys \<in> set (combinations (sorted_list_of_fset c) (k - 1)).
         dict_contains d (fset_of_list ys))"
    by (simp add: all_subsets_frequent_def list_all_iff)
  also have "\<dots> \<longleftrightarrow> (\<forall>s. (\<exists>ys \<in> set (combinations (sorted_list_of_fset c) (k - 1)).
         fset_of_list ys = s) \<longrightarrow> dict_contains d s)"
    by blast
  also have "\<dots> \<longleftrightarrow> (\<forall>s. s |\<subseteq>| c \<and> fcard s = k - 1 \<longrightarrow> dict_contains d s)"
    by (simp only: fset_combinations)
  finally show ?thesis .
qed

text \<open>
  C2. For a dictionary of frequent itemsets (its keys are distinct) and \<open>k \<ge> 2\<close>,
  \<open>generate_candidates\<close> returns exactly the itemsets that are the union of two distinct
  keys, have exactly \<open>k\<close> items, and all of whose subsets of \<open>k - 1\<close> items are keys.
  So no candidate with a subset of size \<open>k - 1\<close> outside the keys is ever returned.
\<close>

theorem generate_candidates_exact:
  assumes "distinct (dict_keys frequent_itemsets)" and "2 \<le> k"
  shows "set (generate_candidates frequent_itemsets k) =
     {c. (\<exists>a b. dict_contains frequent_itemsets a \<and> dict_contains frequent_itemsets b
                \<and> a \<noteq> b \<and> c = a |\<union>| b)
         \<and> fcard c = k
         \<and> (\<forall>s. s |\<subseteq>| c \<and> fcard s = k - 1 \<longrightarrow> dict_contains frequent_itemsets s)}"
proof -
  have "set (join_pairs k (dict_keys frequent_itemsets) []) =
      {a |\<union>| b | a b. a \<in> set (dict_keys frequent_itemsets)
          \<and> b \<in> set (dict_keys frequent_itemsets) \<and> a \<noteq> b \<and> fcard (a |\<union>| b) = k}"
    using set_join_pairs [OF assms(1), of k "[]"] by simp
  then show ?thesis
    unfolding set_generate_candidates all_subsets_frequent_iff dict_contains_def
    by (intro set_eqI) auto
qed

theorem generate_candidates_exact_witness:
  "distinct (dict_keys [({|''A''|}, 2 :: nat), ({|''B''|}, 1)])
   \<and> (2 :: nat) \<le> 2
   \<and> {|''A'', ''B''|} \<in> set (generate_candidates [({|''A''|}, 2 :: nat), ({|''B''|}, 1)] 2)
   \<and> (\<exists>a b. dict_contains [({|''A''|}, 2 :: nat), ({|''B''|}, 1)] a
           \<and> dict_contains [({|''A''|}, 2 :: nat), ({|''B''|}, 1)] b
           \<and> a \<noteq> b \<and> {|''A'', ''B''|} = a |\<union>| b)
   \<and> fcard {|''A'', ''B''|} = 2"
proof -
  let ?e = "[({|''A''|}, 2 :: nat), ({|''B''|}, 1)]"
  have e: "distinct (dict_keys ?e)" by code_simp
  have k: "(2 :: nat) \<le> 2" by simp
  have mem: "{|''A'', ''B''|} \<in> set (generate_candidates ?e 2)" by code_simp
  have "(\<exists>a b. dict_contains ?e a \<and> dict_contains ?e b \<and> a \<noteq> b
            \<and> {|''A'', ''B''|} = a |\<union>| b)
        \<and> fcard {|''A'', ''B''|} = 2
        \<and> (\<forall>s. s |\<subseteq>| {|''A'', ''B''|} \<and> fcard s = 2 - 1 \<longrightarrow> dict_contains ?e s)"
    by (rule CollectD [OF mem [unfolded generate_candidates_exact [OF e k]]])
  then have ex: "\<exists>a b. dict_contains ?e a \<and> dict_contains ?e b \<and> a \<noteq> b
            \<and> {|''A'', ''B''|} = a |\<union>| b"
    and c: "fcard {|''A'', ''B''|} = 2" by (rule conjunct1, rule conjunct2 [THEN conjunct1])
  show ?thesis
    by (intro conjI e k mem ex c)
qed

section \<open>Maximal frequent itemsets\<close>

lemma set_maximal_step:
  "set (maximal_step x acc) =
     (if \<exists>other \<in> set acc. x |\<subseteq>| other then set acc else insert x (set acc))"
  by (simp add: maximal_step_def list_ex_iff)

lemma fold_maximal_step_mono: "set acc \<subseteq> set (fold maximal_step xs acc)"
proof (induction xs arbitrary: acc)
  case Nil then show ?case by simp
next
  case (Cons x xs)
  have "set acc \<subseteq> set (maximal_step x acc)" by (auto simp: set_maximal_step)
  also have "\<dots> \<subseteq> set (fold maximal_step xs (maximal_step x acc))" by (rule Cons.IH)
  finally show ?case by simp
qed

lemma fold_maximal_step_subset: "set (fold maximal_step xs acc) \<subseteq> set acc \<union> set xs"
proof (induction xs arbitrary: acc)
  case Nil then show ?case by simp
next
  case (Cons x xs)
  have "set (fold maximal_step xs (maximal_step x acc)) \<subseteq> set (maximal_step x acc) \<union> set xs"
    by (rule Cons.IH)
  also have "\<dots> \<subseteq> set acc \<union> set (x # xs)" by (auto simp: set_maximal_step split: if_splits)
  finally show ?case by simp
qed

lemma fold_maximal_step_covers:
  "x \<in> set xs \<Longrightarrow> \<exists>m \<in> set (fold maximal_step xs acc). x |\<subseteq>| m"
proof (induction xs arbitrary: acc)
  case Nil then show ?case by simp
next
  case (Cons y ys)
  show ?case
  proof (cases "x \<in> set ys")
    case True
    from Cons.IH [OF True, of "maximal_step y acc"] show ?thesis by simp
  next
    case False
    with Cons.prems have xy: "x = y" by simp
    have "\<exists>m \<in> set (maximal_step y acc). y |\<subseteq>| m"
      by (auto simp: set_maximal_step)
    then obtain m where "m \<in> set (maximal_step y acc)" "y |\<subseteq>| m" by blast
    moreover have "set (maximal_step y acc) \<subseteq> set (fold maximal_step ys (maximal_step y acc))"
      by (rule fold_maximal_step_mono)
    ultimately show ?thesis using xy by auto
  qed
qed

lemma fold_maximal_step_antichain:
  assumes "sorted_wrt (\<lambda>a b. fcard b \<le> fcard a) xs"
    and "\<forall>a \<in> set acc. \<forall>x \<in> set xs. fcard x \<le> fcard a"
    and "\<forall>a \<in> set acc. \<forall>b \<in> set acc. \<not> a |\<subset>| b"
  shows "\<forall>a \<in> set (fold maximal_step xs acc). \<forall>b \<in> set (fold maximal_step xs acc). \<not> a |\<subset>| b"
  using assms
proof (induction xs arbitrary: acc)
  case Nil then show ?case by simp
next
  case (Cons x xs)
  let ?acc = "maximal_step x acc"
  have s: "sorted_wrt (\<lambda>a b. fcard b \<le> fcard a) xs" using Cons.prems(1) by simp
  have le: "\<forall>a \<in> set ?acc. \<forall>y \<in> set xs. fcard y \<le> fcard a"
    using Cons.prems(1,2) by (auto simp: set_maximal_step split: if_splits)
  have anti: "\<forall>a \<in> set ?acc. \<forall>b \<in> set ?acc. \<not> a |\<subset>| b"
  proof (cases "\<exists>other \<in> set acc. x |\<subseteq>| other")
    case True
    then have "set ?acc = set acc" by (simp add: set_maximal_step)
    with Cons.prems(3) show ?thesis by simp
  next
    case False
    then have eq: "set ?acc = insert x (set acc)" by (simp add: set_maximal_step)
    have 1: "\<not> x |\<subset>| b" if "b \<in> set acc" for b
      using False that by (auto simp: less_fset_def less_le)
    have 2: "\<not> a |\<subset>| x" if "a \<in> set acc" for a
    proof
      assume "a |\<subset>| x"
      then have "fcard a < fcard x" by (rule pfsubset_fcard_mono)
      moreover have "fcard x \<le> fcard a" using Cons.prems(2) that by simp
      ultimately show False by simp
    qed
    from 1 2 Cons.prems(3) show ?thesis unfolding eq by auto
  qed
  from Cons.IH [OF s le anti] show ?case by simp
qed

lemma sorted_by_size:
  "sorted_wrt (\<lambda>a b. fcard b \<le> fcard a) (sort_key (\<lambda>itemset. - int (fcard itemset)) xs)"
proof -
  have "sorted (map (\<lambda>itemset. - int (fcard itemset)) (sort_key (\<lambda>itemset. - int (fcard itemset)) xs))"
    by (rule sorted_sort_key)
  then show ?thesis by (simp add: sorted_map)
qed

text \<open>
  C5. In the result of \<open>find_maximal_frequent_itemsets\<close> no itemset is a proper subset of
  another itemset of the result, and every key of the given collection is a subset of some
  itemset of the result. The result holds keys of the collection only.
\<close>

theorem find_maximal_frequent_itemsets_sound:
  "(\<forall>a \<in> set (find_maximal_frequent_itemsets frequent_itemsets).
      \<forall>b \<in> set (find_maximal_frequent_itemsets frequent_itemsets). \<not> a |\<subset>| b)
   \<and> (\<forall>f. dict_contains frequent_itemsets f \<longrightarrow>
         (\<exists>m \<in> set (find_maximal_frequent_itemsets frequent_itemsets). f |\<subseteq>| m))
   \<and> (\<forall>m \<in> set (find_maximal_frequent_itemsets frequent_itemsets).
         dict_contains frequent_itemsets m)"
proof (intro conjI allI impI ballI)
  let ?xs = "sort_key (\<lambda>itemset. - int (fcard itemset)) (dict_keys frequent_itemsets)"
  have M: "find_maximal_frequent_itemsets frequent_itemsets = fold maximal_step ?xs []"
    by (simp add: find_maximal_frequent_itemsets_def)
  have anti: "\<forall>a \<in> set (fold maximal_step ?xs []). \<forall>b \<in> set (fold maximal_step ?xs []). \<not> a |\<subset>| b"
    by (rule fold_maximal_step_antichain [OF sorted_by_size]) simp_all
  { fix a b
    assume "a \<in> set (find_maximal_frequent_itemsets frequent_itemsets)"
      "b \<in> set (find_maximal_frequent_itemsets frequent_itemsets)"
    with anti show "\<not> a |\<subset>| b" unfolding M by blast }
  { fix f assume "dict_contains frequent_itemsets f"
    then have "f \<in> set ?xs" by (simp add: dict_contains_def)
    from fold_maximal_step_covers [OF this, of "[]"]
    show "\<exists>m \<in> set (find_maximal_frequent_itemsets frequent_itemsets). f |\<subseteq>| m"
      unfolding M . }
  { fix m assume "m \<in> set (find_maximal_frequent_itemsets frequent_itemsets)"
    then have "m \<in> set [] \<union> set ?xs" unfolding M using fold_maximal_step_subset by blast
    then show "dict_contains frequent_itemsets m" by (simp add: dict_contains_def) }
qed

theorem find_maximal_frequent_itemsets_sound_witness:
  "{|''A''|} \<in> set (find_maximal_frequent_itemsets
        [({|''A''|}, 2 :: nat), ({|''C''|}, 1), ({|''B'', ''C''|}, 1)])
   \<and> {|''B'', ''C''|} \<in> set (find_maximal_frequent_itemsets
        [({|''A''|}, 2 :: nat), ({|''C''|}, 1), ({|''B'', ''C''|}, 1)])
   \<and> \<not> {|''A''|} |\<subset>| {|''B'', ''C''|}
   \<and> dict_contains [({|''A''|}, 2 :: nat), ({|''C''|}, 1), ({|''B'', ''C''|}, 1)] {|''C''|}
   \<and> (\<exists>m \<in> set (find_maximal_frequent_itemsets
        [({|''A''|}, 2 :: nat), ({|''C''|}, 1), ({|''B'', ''C''|}, 1)]). {|''C''|} |\<subseteq>| m)
   \<and> find_maximal_frequent_itemsets
        [({|''A''|}, 2 :: nat), ({|''C''|}, 1), ({|''B'', ''C''|}, 1)]
       = [{|''B'', ''C''|}, {|''A''|}]"
proof -
  let ?d = "[({|''A''|}, 2 :: nat), ({|''C''|}, 1), ({|''B'', ''C''|}, 1)]"
  note sound = find_maximal_frequent_itemsets_sound [of ?d]
  have v: "find_maximal_frequent_itemsets ?d = [{|''B'', ''C''|}, {|''A''|}]" by code_simp
  have a: "{|''A''|} \<in> set (find_maximal_frequent_itemsets ?d)" by code_simp
  have b: "{|''B'', ''C''|} \<in> set (find_maximal_frequent_itemsets ?d)" by code_simp
  have c: "dict_contains ?d {|''C''|}" by code_simp
  have n: "\<not> {|''A''|} |\<subset>| {|''B'', ''C''|}"
    by (rule sound [THEN conjunct1, rule_format, OF a b])
  have e: "\<exists>m \<in> set (find_maximal_frequent_itemsets ?d). {|''C''|} |\<subseteq>| m"
    by (rule sound [THEN conjunct2, THEN conjunct1, rule_format, OF c])
  show ?thesis by (intro conjI a b n c e v)
qed

section \<open>The level-wise search\<close>

lemma combinations_one: "combinations xs (Suc 0) = map (\<lambda>x. [x]) xs"
  by (induction xs) simp_all

lemma set_fold_set_add: "set (fold (\<lambda>x acc. set_add (g x) acc) xs acc) = set acc \<union> g ` set xs"
  by (induction xs arbitrary: acc) auto

lemma distinct_fold_set_add:
  "distinct (fold (\<lambda>x acc. set_add (g x) acc) xs acc) = distinct acc"
  by (induction xs arbitrary: acc) auto

lemma set_get_itemsets_fold:
  "set (fold (\<lambda>transaction itemsets.
             fold (\<lambda>combo itemsets. set_add (fset_of_list combo) itemsets)
               (combinations (sorted_list_of_fset transaction) k) itemsets) ts acc)
   = set acc \<union> (\<Union>t \<in> set ts. fset_of_list ` set (combinations (sorted_list_of_fset t) k))"
  by (induction ts arbitrary: acc) (auto simp: set_fold_set_add)

lemma distinct_get_itemsets_fold:
  "distinct (fold (\<lambda>transaction itemsets.
             fold (\<lambda>combo itemsets. set_add (fset_of_list combo) itemsets)
               (combinations (sorted_list_of_fset transaction) k) itemsets) ts acc)
   = distinct acc"
  by (induction ts arbitrary: acc) (auto simp: distinct_fold_set_add)

lemma distinct_get_itemsets: "distinct (get_itemsets ts k)"
  by (simp add: get_itemsets_def distinct_get_itemsets_fold)

lemma set_get_itemsets:
  "set (get_itemsets ts k) = {s. fcard s = k \<and> (\<exists>t \<in> set ts. s |\<subseteq>| t)}"
proof -
  have "set (get_itemsets ts k) =
      (\<Union>t \<in> set ts. fset_of_list ` set (combinations (sorted_list_of_fset t) k))"
    by (simp add: get_itemsets_def set_get_itemsets_fold)
  also have "\<dots> = {s. \<exists>t \<in> set ts. \<exists>ys \<in> set (combinations (sorted_list_of_fset t) k). fset_of_list ys = s}"
    by auto
  also have "\<dots> = {s. fcard s = k \<and> (\<exists>t \<in> set ts. s |\<subseteq>| t)}"
    by (simp only: fset_combinations) auto
  finally show ?thesis .
qed

lemma max_size_le_items: "max_size ts \<le> length (get_itemsets ts 1)"
proof -
  have "fcard t \<le> length (get_itemsets ts 1)" if t: "t \<in> set ts" for t
  proof -
    have inj: "inj_on (\<lambda>x. {|x|}) (fset t)" by (simp add: inj_on_def)
    have "(\<lambda>x. {|x|}) ` fset t \<subseteq> set (get_itemsets ts 1)"
      using t by (auto simp: set_get_itemsets fcard_finsert_disjoint)
    then have "card ((\<lambda>x. {|x|}) ` fset t) \<le> card (set (get_itemsets ts 1))"
      by (simp add: card_mono)
    then show ?thesis
      by (simp add: card_image [OF inj] fcard.rep_eq distinct_card [OF distinct_get_itemsets])
  qed
  moreover have "fold (\<lambda>t m. max (fcard t) m) ts m0 \<le> b"
    if "m0 \<le> b" "\<forall>t \<in> set ts. fcard t \<le> b" for m0 b
    using that by (induction ts arbitrary: m0) auto
  ultimately show ?thesis by (simp add: max_size_def)
qed

text \<open>
  Past the largest transaction size no itemset can be frequent: a state is in order when
  \<open>frequent_itemsets\<close> is empty or \<open>k\<close> is at most that size plus one.
\<close>

definition level_ok :: "itemset list \<Rightarrow> loop_state \<Rightarrow> bool" where
  "level_ok transactions s =
     (case s of (k, frequent_itemsets, all_frequent_itemsets, all_support_counts) \<Rightarrow>
        frequent_itemsets = [] \<or> k \<le> Suc (max_size transactions))"

lemma loop_body_simp:
  "loop_body ts ms n (k, f, af, asc) =
     (Suc k, filter_frequent_itemsets (count_support ts (generate_candidates f k)) ms n,
      dict_update af (filter_frequent_itemsets (count_support ts (generate_candidates f k)) ms n),
      dict_update asc (count_support ts (generate_candidates f k)))"
  by (simp add: loop_body_def Let_def)

lemma frequent_after_body:
  assumes "(c, v) \<in> set (filter_frequent_itemsets (count_support ts (generate_candidates f k)) ms n)"
  shows "c \<in> set (generate_candidates f k) \<and> fcard c = k \<and> (\<exists>t \<in> set ts. c |\<subseteq>| t)
         \<and> v = support_of ts c \<and> ms * real n \<le> real v"
proof -
  from assms have in_sc: "(c, v) \<in> set (count_support ts (generate_candidates f k))"
    and thr: "ms * real n \<le> real v"
    by (auto simp: filter_frequent_itemsets_def Let_def)
  from in_sc have "c \<in> fst ` set (count_support ts (generate_candidates f k))" by force
  then have cand: "c \<in> set (generate_candidates f k)" and t: "\<exists>t \<in> set ts. c |\<subseteq>| t"
    by (auto simp: keys_count_support)
  from in_sc have "map_of (count_support ts (generate_candidates f k)) c = Some v"
    by (simp add: distinct_count_support)
  then have "v = support_of ts c"
    by (simp add: map_of_count_support [OF distinct_generate_candidates] split: if_splits)
  with cand t thr generate_candidates_card [OF cand] show ?thesis by simp
qed

lemma level_ok_body: "level_ok ts (loop_body ts ms n s)"
proof -
  obtain k f af asc where s: "s = (k, f, af, asc)" by (cases s) auto
  let ?f = "filter_frequent_itemsets (count_support ts (generate_candidates f k)) ms n"
  have "?f = [] \<or> Suc k \<le> Suc (max_size ts)"
  proof (cases ?f)
    case Nil then show ?thesis by simp
  next
    case (Cons p ps)
    obtain c v where p: "p = (c, v)" by (cases p)
    with Cons have "(c, v) \<in> set ?f" by simp
    from frequent_after_body [OF this] obtain t where "fcard c = k" "t \<in> set ts" "c |\<subseteq>| t"
      by blast
    with fcard_le_max_size [of t ts c] show ?thesis by simp
  qed
  then show ?thesis unfolding s loop_body_simp level_ok_def by simp
qed

lemma fst_loop_body: "fst (loop_body ts ms n s) = Suc (fst s)"
  by (cases s) (simp add: loop_body_simp)

lemma fst_iterate: "fst ((loop_body ts ms n ^^ m) s) = fst s + m"
  by (induction m) (simp_all add: fst_loop_body)

lemma loop_exit:
  "level_ok ts s \<Longrightarrow>
     \<exists>n \<le> Suc (Suc (max_size ts)) - fst s.
        \<not> loop_continues ((loop_body ts ms tot ^^ n) s)
        \<and> (\<forall>m < n. loop_continues ((loop_body ts ms tot ^^ m) s))
        \<and> apriori_loop ts ms tot s = (loop_body ts ms tot ^^ n) s"
proof (induction ts ms tot s rule: apriori_loop.induct)
  case (1 ts ms tot s)
  show ?case
  proof (cases "loop_continues s")
    case False
    then have "\<not> loop_continues ((loop_body ts ms tot ^^ 0) s)
        \<and> (\<forall>m < 0. loop_continues ((loop_body ts ms tot ^^ m) s))
        \<and> apriori_loop ts ms tot s = (loop_body ts ms tot ^^ 0) s"
      by (subst apriori_loop.simps) simp
    then show ?thesis by blast
  next
    case True
    let ?s = "loop_body ts ms tot s"
    from "1.IH" [OF True level_ok_body] obtain n where
      n: "n \<le> Suc (Suc (max_size ts)) - fst ?s"
      "\<not> loop_continues ((loop_body ts ms tot ^^ n) ?s)"
      "\<forall>m < n. loop_continues ((loop_body ts ms tot ^^ m) ?s)"
      "apriori_loop ts ms tot ?s = (loop_body ts ms tot ^^ n) ?s"
      by blast
    have k: "fst s \<le> Suc (max_size ts)"
      using True "1.prems" by (cases s) (auto simp: loop_continues_def level_ok_def)
    have shift: "(loop_body ts ms tot ^^ Suc m) s = (loop_body ts ms tot ^^ m) ?s" for m
      by (simp add: funpow_swap1)
    have b: "Suc n \<le> Suc (Suc (max_size ts)) - fst s"
      using n(1) k by (simp add: fst_loop_body)
    have e: "\<not> loop_continues ((loop_body ts ms tot ^^ Suc n) s)"
      unfolding shift by (rule n(2))
    have a: "\<forall>m < Suc n. loop_continues ((loop_body ts ms tot ^^ m) s)"
    proof (intro allI impI)
      fix m assume m: "m < Suc n"
      show "loop_continues ((loop_body ts ms tot ^^ m) s)"
      proof (cases m)
        case 0 with True show ?thesis by simp
      next
        case (Suc m')
        with m n(3) have "loop_continues ((loop_body ts ms tot ^^ m') ?s)" by simp
        then show ?thesis unfolding Suc shift .
      qed
    qed
    have r: "apriori_loop ts ms tot s = (loop_body ts ms tot ^^ Suc n) s"
    proof -
      have "apriori_loop ts ms tot s = apriori_loop ts ms tot ?s"
        using True by (subst apriori_loop.simps) simp
      with n(4) show ?thesis unfolding shift by simp
    qed
    from b e a r show ?thesis by blast
  qed
qed

lemma initial_state_simp:
  "initial_state ts ms =
     (2, filter_frequent_itemsets (count_support ts (get_itemsets ts 1)) ms (length ts),
      filter_frequent_itemsets (count_support ts (get_itemsets ts 1)) ms (length ts),
      count_support ts (get_itemsets ts 1))"
  by (simp add: initial_state_def Let_def)

lemma frequent_initial:
  assumes "(c, v) \<in> set (filter_frequent_itemsets (count_support ts (get_itemsets ts 1)) ms n)"
  shows "fcard c = 1 \<and> (\<exists>t \<in> set ts. c |\<subseteq>| t) \<and> v = support_of ts c \<and> ms * real n \<le> real v"
proof -
  from assms have in_sc: "(c, v) \<in> set (count_support ts (get_itemsets ts 1))"
    and thr: "ms * real n \<le> real v"
    by (auto simp: filter_frequent_itemsets_def Let_def)
  from in_sc have "c \<in> fst ` set (count_support ts (get_itemsets ts 1))" by force
  then have cand: "c \<in> set (get_itemsets ts 1)" and t: "\<exists>t \<in> set ts. c |\<subseteq>| t"
    by (auto simp: keys_count_support)
  from in_sc have "map_of (count_support ts (get_itemsets ts 1)) c = Some v"
    by (simp add: distinct_count_support)
  then have "v = support_of ts c"
    by (simp add: map_of_count_support [OF distinct_get_itemsets] split: if_splits)
  with cand t thr show ?thesis by (simp add: set_get_itemsets)
qed

lemma level_ok_initial: "level_ok ts (initial_state ts ms)"
proof -
  let ?f = "filter_frequent_itemsets (count_support ts (get_itemsets ts 1)) ms (length ts)"
  have "?f = [] \<or> 2 \<le> Suc (max_size ts)"
  proof (cases ?f)
    case Nil then show ?thesis by simp
  next
    case (Cons p ps)
    obtain c v where p: "p = (c, v)" by (cases p)
    with Cons have "(c, v) \<in> set ?f" by simp
    from frequent_initial [OF this] obtain t where "fcard c = 1" "t \<in> set ts" "c |\<subseteq>| t"
      by blast
    with fcard_le_max_size [of t ts c] show ?thesis by simp
  qed
  then show ?thesis unfolding initial_state_simp level_ok_def by simp
qed

text \<open>
  C10. The loop of \<open>apriori\<close> terminates: started in the state that step 1 leaves, it runs
  \<open>n\<close> iterations, where \<open>n\<close> is at most the number of distinct items (the length of
  \<open>get_itemsets transactions 1\<close>); after them \<open>frequent_itemsets\<close> is empty or no candidate
  is generated, and that state is the one the loop returns. After \<open>m\<close> iterations \<open>k\<close> is
  \<open>2 + m\<close>, and every candidate generated at that level has exactly \<open>2 + m\<close> items.
\<close>

theorem apriori_loop_terminates:
  "\<exists>n \<le> length (get_itemsets transactions 1).
      \<not> loop_continues
          ((loop_body transactions min_sup (length transactions) ^^ n)
             (initial_state transactions min_sup))
      \<and> (\<forall>m < n. loop_continues
            ((loop_body transactions min_sup (length transactions) ^^ m)
               (initial_state transactions min_sup)))
      \<and> (\<forall>m. fst ((loop_body transactions min_sup (length transactions) ^^ m)
                    (initial_state transactions min_sup)) = 2 + m
             \<and> (\<forall>c \<in> set (generate_candidates
                    (fst (snd ((loop_body transactions min_sup (length transactions) ^^ m)
                                 (initial_state transactions min_sup))))
                    (2 + m)). fcard c = 2 + m))
      \<and> apriori_loop transactions min_sup (length transactions)
            (initial_state transactions min_sup)
          = (loop_body transactions min_sup (length transactions) ^^ n)
              (initial_state transactions min_sup)"
proof -
  let ?s = "initial_state transactions min_sup"
  let ?it = "\<lambda>m. (loop_body transactions min_sup (length transactions) ^^ m) ?s"
  have k0: "fst ?s = 2" by (simp add: initial_state_simp)
  from loop_exit [where ms = min_sup and tot = "length transactions",
      OF level_ok_initial [of transactions min_sup]]
  obtain n where n: "n \<le> Suc (Suc (max_size transactions)) - fst ?s"
    "\<not> loop_continues (?it n)" "\<forall>m < n. loop_continues (?it m)"
    "apriori_loop transactions min_sup (length transactions) ?s = ?it n"
    by (elim exE conjE) (rule that)
  from n(1) k0 max_size_le_items [of transactions]
  have b: "n \<le> length (get_itemsets transactions 1)" by simp
  have lv: "fst (?it m) = 2 + m" for m
    using fst_iterate [where ts = transactions and ms = min_sup
        and n = "length transactions" and m = m and s = ?s] k0 by simp
  have cs: "\<forall>c \<in> set (generate_candidates (fst (snd (?it m))) (2 + m)). fcard c = 2 + m" for m
    by (simp add: generate_candidates_card)
  have "n \<le> length (get_itemsets transactions 1) \<and> \<not> loop_continues (?it n)
      \<and> (\<forall>m < n. loop_continues (?it m))
      \<and> (\<forall>m. fst (?it m) = 2 + m
             \<and> (\<forall>c \<in> set (generate_candidates (fst (snd (?it m))) (2 + m)). fcard c = 2 + m))
      \<and> apriori_loop transactions min_sup (length transactions) ?s = ?it n"
    by (intro conjI allI b n lv cs)
  then show ?thesis by (rule exI)
qed

theorem apriori_loop_terminates_witness:
  "(\<exists>n \<le> 2.
      \<not> loop_continues
          ((loop_body [{|''A'', ''B''|}, {|''A''|}] (1 / 2) 2 ^^ n)
             (initial_state [{|''A'', ''B''|}, {|''A''|}] (1 / 2)))
      \<and> apriori_loop [{|''A'', ''B''|}, {|''A''|}] (1 / 2) 2
            (initial_state [{|''A'', ''B''|}, {|''A''|}] (1 / 2))
          = (loop_body [{|''A'', ''B''|}, {|''A''|}] (1 / 2) 2 ^^ n)
              (initial_state [{|''A'', ''B''|}, {|''A''|}] (1 / 2)))
   \<and> fst (apriori_loop [{|''A'', ''B''|}, {|''A''|}] (1 / 2) 2
            (initial_state [{|''A'', ''B''|}, {|''A''|}] (1 / 2))) = 3"
proof -
  let ?ts = "[{|''A'', ''B''|}, {|''A''|}]"
  have len: "length ?ts = 2" by simp
  have items: "length (get_itemsets ?ts 1) = 2" by code_simp
  have k: "fst (apriori_loop ?ts (1 / 2) 2 (initial_state ?ts (1 / 2))) = 3" by code_simp
  from apriori_loop_terminates [of ?ts "1 / 2", unfolded items len]
  obtain n where "n \<le> 2"
    "\<not> loop_continues ((loop_body ?ts (1 / 2) 2 ^^ n) (initial_state ?ts (1 / 2)))"
    "apriori_loop ?ts (1 / 2) 2 (initial_state ?ts (1 / 2))
       = (loop_body ?ts (1 / 2) 2 ^^ n) (initial_state ?ts (1 / 2))"
    by (elim exE conjE) (rule that)
  then have "\<exists>n \<le> 2.
      \<not> loop_continues ((loop_body ?ts (1 / 2) 2 ^^ n) (initial_state ?ts (1 / 2)))
      \<and> apriori_loop ?ts (1 / 2) 2 (initial_state ?ts (1 / 2))
          = (loop_body ?ts (1 / 2) 2 ^^ n) (initial_state ?ts (1 / 2))"
    by (intro exI [of _ n] conjI)
  then show ?thesis using k by (rule conjI)
qed

section \<open>The invariant of the search\<close>















section \<open>Rule generation\<close>

lemma rule_for_item_flat:
  "rule_for_item sc mc n itemset support r =
     (if rhs_skipped r \<or> itemset |-| {|r|} = {||}
         \<or> (r \<in> set fine_levels \<and> is_trivial r (itemset |-| {|r|}))
         \<or> dict_get sc (itemset |-| {|r|}) 0 = 0
         \<or> \<not> mc \<le> real support / real (dict_get sc (itemset |-| {|r|}) 0)
      then Inr None
      else if n = 0 then Inl ZeroDivisionError
      else Inr (Some (itemset |-| {|r|}, {|r|}, real support / real n,
                  real support / real (dict_get sc (itemset |-| {|r|}) 0))))"
  by (simp add: rule_for_item_def Let_def)

lemma rule_for_item_Some:
  assumes "rule_for_item sc mc n itemset support r = Inr (Some (lhs, rhs, rule_support, confidence))"
  shows "\<not> rhs_skipped r \<and> rhs = {|r|} \<and> lhs = itemset |-| {|r|} \<and> lhs \<noteq> {||}
     \<and> \<not> (r \<in> set fine_levels \<and> is_trivial r lhs)
     \<and> dict_get sc lhs 0 \<noteq> 0
     \<and> confidence = real support / real (dict_get sc lhs 0)
     \<and> mc \<le> confidence \<and> n \<noteq> 0 \<and> rule_support = real support / real n"
proof (cases "rhs_skipped r \<or> itemset |-| {|r|} = {||}
         \<or> (r \<in> set fine_levels \<and> is_trivial r (itemset |-| {|r|}))
         \<or> dict_get sc (itemset |-| {|r|}) 0 = 0
         \<or> \<not> mc \<le> real support / real (dict_get sc (itemset |-| {|r|}) 0)")
  case True
  then have "rule_for_item sc mc n itemset support r = Inr None"
    by (subst rule_for_item_flat) simp
  with assms show ?thesis by simp
next
  case False
  note C = this
  show ?thesis
  proof (cases "n = 0")
    case True
    with C have "rule_for_item sc mc n itemset support r = Inl ZeroDivisionError"
      by (subst rule_for_item_flat) simp
    with assms show ?thesis by simp
  next
    case False
    with C have "rule_for_item sc mc n itemset support r =
        Inr (Some (itemset |-| {|r|}, {|r|}, real support / real n,
                  real support / real (dict_get sc (itemset |-| {|r|}) 0)))"
      by (subst rule_for_item_flat) simp
    then have "Inr (Some (lhs, rhs, rule_support, confidence)) =
        (Inr (Some (itemset |-| {|r|}, {|r|}, real support / real n,
                  real support / real (dict_get sc (itemset |-| {|r|}) 0)))
          :: py_error + rule option)"
      by (rule trans [OF assms [symmetric]])
    then have "(lhs, rhs, rule_support, confidence) =
        (itemset |-| {|r|}, {|r|}, real support / real n,
                  real support / real (dict_get sc (itemset |-| {|r|}) 0))"
      by (simp only: sum.inject option.inject)
    then have eq: "lhs = itemset |-| {|r|}" "rhs = {|r|}"
      "rule_support = real support / real n"
      "confidence = real support / real (dict_get sc (itemset |-| {|r|}) 0)"
      by (simp_all only: prod.inject)
    from C False show ?thesis unfolding eq by simp
  qed
qed

lemma rule_for_item_no_error:
  "n \<noteq> 0 \<Longrightarrow> rule_for_item sc mc n itemset support r \<noteq> Inl e"
  by (simp add: rule_for_item_flat)

lemma rule_for_item_cong:
  "(\<And>key. dict_get sc' key 0 = dict_get sc key 0) \<Longrightarrow>
     rule_for_item sc' mc n itemset support r = rule_for_item sc mc n itemset support r"
  by (simp add: rule_for_item_def Let_def)

lemma rules_of_itemset_members:
  assumes "rules_of_itemset sc mc n itemset support items rules = Inr rules'"
    and "rule \<in> set rules'"
  shows "rule \<in> set rules
         \<or> (\<exists>r \<in> set items. rule_for_item sc mc n itemset support r = Inr (Some rule))"
  using assms
proof (induction items arbitrary: rules)
  case Nil then show ?case by simp
next
  case (Cons r items)
  show ?case
  proof (cases "rule_for_item sc mc n itemset support r")
    case (Inl e)
    with Cons.prems show ?thesis by simp
  next
    case (Inr opt)
    show ?thesis
    proof (cases opt)
      case None
      with Inr Cons.prems have "rules_of_itemset sc mc n itemset support items rules = Inr rules'"
        by simp
      from Cons.IH [OF this Cons.prems(2)] show ?thesis by auto
    next
      case (Some new)
      with Inr Cons.prems
      have "rules_of_itemset sc mc n itemset support items (rules @ [new]) = Inr rules'"
        by simp
      from Cons.IH [OF this Cons.prems(2)] Inr Some show ?thesis by auto
    qed
  qed
qed

lemma rules_of_itemset_no_error:
  "n \<noteq> 0 \<Longrightarrow> \<exists>rules'. rules_of_itemset sc mc n itemset support items rules = Inr rules'"
proof (induction items arbitrary: rules)
  case Nil then show ?case by simp
next
  case (Cons r items)
  show ?case
  proof (cases "rule_for_item sc mc n itemset support r")
    case (Inl e)
    with rule_for_item_no_error [OF Cons.prems] show ?thesis by blast
  next
    case (Inr opt)
    with Cons.IH [OF Cons.prems] show ?thesis by (cases opt) simp_all
  qed
qed

lemma defaultdict_getitem_get:
  "defaultdict_getitem d key = (support, d') \<Longrightarrow>
     support = dict_get d key 0 \<and> (\<forall>k. dict_get d' k 0 = dict_get d k 0)"
  by (auto simp: defaultdict_getitem_def dict_get_def map_add_def split: option.splits if_splits)

lemma generate_rules_loop_members:
  assumes "generate_rules_loop ms sc mc n rules = Inr rules'" and "rule \<in> set rules'"
  shows "rule \<in> set rules
    \<or> (\<exists>itemset \<in> set ms. 2 \<le> fcard itemset
          \<and> (\<exists>r. r |\<in>| itemset
                \<and> rule_for_item sc mc n itemset (dict_get sc itemset 0) r = Inr (Some rule)))"
  using assms
proof (induction ms arbitrary: sc rules)
  case Nil then show ?case by simp
next
  case (Cons itemset ms)
  obtain support sc' where g: "defaultdict_getitem sc itemset = (support, sc')"
    by (cases "defaultdict_getitem sc itemset")
  from defaultdict_getitem_get [OF g]
  have sup: "support = dict_get sc itemset 0" and same: "\<And>k. dict_get sc' k 0 = dict_get sc k 0"
    by simp_all
  have conv: "rule_for_item sc' mc n i (dict_get sc' i 0) r = rule_for_item sc mc n i (dict_get sc i 0) r"
    for i r
    using rule_for_item_cong [of sc' sc mc n i "dict_get sc' i 0" r] same by simp
  show ?case
  proof (cases "fcard itemset < 2")
    case True
    with Cons.prems(1) g have "generate_rules_loop ms sc' mc n rules = Inr rules'" by simp
    from Cons.IH [OF this Cons.prems(2)] show ?thesis unfolding conv by auto
  next
    case False
    show ?thesis
    proof (cases "rules_of_itemset sc' mc n itemset support (sorted_list_of_fset itemset) rules")
      case (Inl e)
      with Cons.prems(1) g False show ?thesis by simp
    next
      case (Inr rules1)
      with Cons.prems(1) g False have "generate_rules_loop ms sc' mc n rules1 = Inr rules'"
        by simp
      from Cons.IH [OF this Cons.prems(2)]
      have "rule \<in> set rules1
        \<or> (\<exists>i \<in> set ms. 2 \<le> fcard i
          \<and> (\<exists>r. r |\<in>| i \<and> rule_for_item sc mc n i (dict_get sc i 0) r = Inr (Some rule)))"
        unfolding conv .
      then show ?thesis
      proof
        assume "rule \<in> set rules1"
        from rules_of_itemset_members [OF Inr this]
        have "rule \<in> set rules
           \<or> (\<exists>r. r |\<in>| itemset \<and> rule_for_item sc' mc n itemset support r = Inr (Some rule))"
          by auto
        moreover have "rule_for_item sc' mc n itemset support r
            = rule_for_item sc mc n itemset (dict_get sc itemset 0) r" for r
          using rule_for_item_cong [of sc' sc mc n itemset support r] same sup by simp
        ultimately show ?thesis using False by auto
      next
        assume "\<exists>i \<in> set ms. 2 \<le> fcard i
          \<and> (\<exists>r. r |\<in>| i \<and> rule_for_item sc mc n i (dict_get sc i 0) r = Inr (Some rule))"
        then show ?thesis by auto
      qed
    qed
  qed
qed

lemma generate_rules_loop_no_error:
  "n \<noteq> 0 \<Longrightarrow> \<exists>rules'. generate_rules_loop ms sc mc n rules = Inr rules'"
proof (induction ms arbitrary: sc rules)
  case Nil then show ?case by simp
next
  case (Cons itemset ms)
  obtain support sc' where g: "defaultdict_getitem sc itemset = (support, sc')"
    by (cases "defaultdict_getitem sc itemset")
  from rules_of_itemset_no_error [OF Cons.prems] obtain rules1 where
    r: "rules_of_itemset sc' mc n itemset support (sorted_list_of_fset itemset) rules = Inr rules1"
    by blast
  show ?case using g r Cons.IH [OF Cons.prems] by simp
qed

lemma generate_rules_members:
  assumes "generate_rules ms sc mc n = Inr rules" and "rule \<in> set rules"
  shows "\<exists>itemset \<in> set ms. 2 \<le> fcard itemset
          \<and> (\<exists>r. r |\<in>| itemset
                \<and> rule_for_item sc mc n itemset (dict_get sc itemset 0) r = Inr (Some rule))"
  using generate_rules_loop_members [OF assms [unfolded generate_rules_def]] by simp

lemma support_of_antimono: "a |\<subseteq>| b \<Longrightarrow> support_of ts b \<le> support_of ts a"
proof -
  assume "a |\<subseteq>| b"
  then have "set (filter (\<lambda>t. b |\<subseteq>| t) ts) \<subseteq> set (filter (\<lambda>t. a |\<subseteq>| t) ts)" by auto
  have "length (filter (\<lambda>t. b |\<subseteq>| t) ts) \<le> length (filter (\<lambda>t. a |\<subseteq>| t) ts)"
  proof (induction ts)
    case Nil then show ?case by simp
  next
    case (Cons t ts)
    with \<open>a |\<subseteq>| b\<close> show ?case by auto
  qed
  then show ?thesis by (simp add: support_of_def)
qed

lemma dict_get_values:
  assumes "\<forall>(c, v) \<in> set d. v = f c"
  shows "k \<in> fst ` set d \<Longrightarrow> dict_get d k 0 = f k"
    and "dict_get d k 0 \<noteq> 0 \<Longrightarrow> dict_get d k 0 = f k"
proof -
  have *: "dict_get d k 0 = f k" if "map_of d k = Some v" for v
  proof -
    from that have "(k, v) \<in> set d" by (rule map_of_SomeD)
    with assms have "v = f k" by auto
    with that show ?thesis by (simp add: dict_get_def)
  qed
  { assume "k \<in> fst ` set d"
    then obtain v where "map_of d k = Some v"
      by (metis domD dom_map_of_conv_image_fst)
    then show "dict_get d k 0 = f k" by (rule *) }
  { assume "dict_get d k 0 \<noteq> 0"
    then obtain v where "map_of d k = Some v" by (cases "map_of d k") (simp_all add: dict_get_def)
    then show "dict_get d k 0 = f k" by (rule *) }
qed

end
